theory Spec2Isabelle
  imports Complex_Main "HOL-Library.Sublist"
begin

section \<open>Timeline mapper (commits.py)\<close>

text \<open>
  \<^verbatim>\<open>fetch_jira_transitions\<close> returns dictionaries with the keys \<^verbatim>\<open>to_stage\<close> and
  \<^verbatim>\<open>transition_date\<close>, \<^verbatim>\<open>get_commits_for_jira_key\<close> dictionaries with the keys
  \<^verbatim>\<open>sha\<close> and \<^verbatim>\<open>date\<close>. Both dates are timezone-aware datetimes, which Python
  compares as instants; an instant is an integer here (microseconds since the epoch).
\<close>

record transition =
  to_stage :: string
  transition_date :: int

record commit =
  sha :: string
  date :: int

record stage_commit =
  jira_key :: string
  commit_sha :: string
  commit_date :: int
  stage :: string

text \<open>
  The inner loop of \<^verbatim>\<open>map_commits_to_stages\<close>:
  \<^verbatim>\<open>
  for transition in transitions:
      transition_date = transition["transition_date"]
      if commit_date >= transition_date:
          current_stage = transition["to_stage"]
  \<close>
  It runs over every transition, for every commit, and \<^verbatim>\<open>current_stage\<close> is the
  variable of the enclosing function: it is not reset between two commits.
\<close>

fun advance_stage :: "string \<Rightarrow> int \<Rightarrow> transition list \<Rightarrow> string" where
  "advance_stage current_stage commit_date' [] = current_stage"
| "advance_stage current_stage commit_date' (t # ts) =
     advance_stage
       (if commit_date' \<ge> transition_date t then to_stage t else current_stage)
       commit_date' ts"

text \<open>
  The outer loop:
  \<^verbatim>\<open>
  for commit in commits:
      commit_date = commit["date"]
      ... inner loop ...
      stage_commits.append({"jira_key": jira_key, "commit_sha": commit["sha"],
                            "commit_date": commit_date, "stage": current_stage})
  \<close>
\<close>

fun stage_loop :: "string \<Rightarrow> string \<Rightarrow> transition list \<Rightarrow> commit list \<Rightarrow> stage_commit list" where
  "stage_loop key current_stage transitions [] = []"
| "stage_loop key current_stage transitions (c # cs) =
     (let current_stage' = advance_stage current_stage (date c) transitions
      in \<lparr>jira_key = key, commit_sha = sha c, commit_date = date c, stage = current_stage'\<rparr>
         # stage_loop key current_stage' transitions cs)"

text \<open>
  \<^verbatim>\<open>map_commits_to_stages\<close>, with the results of its two fetches as arguments.
  \<^verbatim>\<open>list.sort(key=...)\<close> is a stable sort, and so is \<^const>\<open>sort_key\<close>.
\<close>

definition map_commits_to_stages ::
  "string \<Rightarrow> transition list \<Rightarrow> commit list \<Rightarrow> stage_commit list" where
  "map_commits_to_stages key transitions commits =
     (if commits = [] then []
      else stage_loop key ''TO DO''
             (sort_key transition_date transitions) (sort_key date commits))"

text \<open>
  The specification's reading: the transitions not after an instant, in ascending (stable)
  order of their timestamps; the latest of them is the last one, and its \<^verbatim>\<open>to_stage\<close> is
  the stage at that instant, the initial stage when there is none.
\<close>

definition transitions_until :: "transition list \<Rightarrow> int \<Rightarrow> transition list" where
  "transitions_until transitions d =
     filter (\<lambda>t. transition_date t \<le> d) (sort_key transition_date transitions)"

definition stage_at :: "transition list \<Rightarrow> int \<Rightarrow> string" where
  "stage_at transitions d =
     (case transitions_until transitions d of
        [] \<Rightarrow> ''TO DO''
      | t # ts \<Rightarrow> to_stage (last (t # ts)))"

section \<open>Nested dictionary access (jira\_script.py)\<close>

text \<open>
  The values \<^verbatim>\<open>safe_get\<close> walks through are decoded JSON. A dictionary is the list of its
  items; a Python dictionary has one item per key, and \<^const>\<open>map_of\<close> reads the first item
  with the key. The empty dictionary \<^verbatim>\<open>{}\<close> is \<open>JDict []\<close>, and no other value is equal
  to it.
\<close>

datatype json =
    JNull
  | JBool bool
  | JNum int
  | JStr string
  | JList "json list"
  | JDict "(string \<times> json) list"

datatype py_exn = AttributeError

text \<open>\<^verbatim>\<open>str.split(sep)\<close> with a one-character separator: never an empty list.\<close>

fun split_on :: "char \<Rightarrow> string \<Rightarrow> string list" where
  "split_on sep [] = [[]]"
| "split_on sep (c # cs) =
     (if c = sep then [] # split_on sep cs
      else (case split_on sep cs of
              [] \<Rightarrow> [[c]]
            | w # ws \<Rightarrow> (c # w) # ws))"

text \<open>\<^verbatim>\<open>isinstance(dct, dict)\<close>\<close>

definition is_dict :: "json \<Rightarrow> bool" where
  "is_dict v = (case v of JDict kvs \<Rightarrow> True | _ \<Rightarrow> False)"

text \<open>
  \<^verbatim>\<open>dct.get(key, default)\<close>: only a dictionary has the method; on any other value the
  attribute access raises.
\<close>

definition dict_get :: "json \<Rightarrow> string \<Rightarrow> json \<Rightarrow> py_exn + json" where
  "dict_get d k dflt =
     (case d of
        JDict kvs \<Rightarrow> Inr (case map_of kvs k of None \<Rightarrow> dflt | Some v \<Rightarrow> v)
      | _ \<Rightarrow> Inl AttributeError)"

text \<open>
  \<^verbatim>\<open>
  for key in keys.split('.'):
      dct = dct.get(key, {}) if isinstance(dct, dict) else {}
  \<close>
\<close>

fun safe_get_loop :: "json \<Rightarrow> string list \<Rightarrow> py_exn + json" where
  "safe_get_loop dct [] = Inr dct"
| "safe_get_loop dct (key # keys) =
     (case (if is_dict dct then dict_get dct key (JDict []) else Inr (JDict [])) of
        Inl e \<Rightarrow> Inl e
      | Inr dct' \<Rightarrow> safe_get_loop dct' keys)"

text \<open>The body of the \<^verbatim>\<open>try\<close>: the loop, then \<^verbatim>\<open>return dct if dct != {} else default\<close>.\<close>

definition safe_get_try :: "json \<Rightarrow> string \<Rightarrow> json \<Rightarrow> py_exn + json" where
  "safe_get_try dct keys dflt =
     (case safe_get_loop dct (split_on CHR ''.'' keys) of
        Inl e \<Rightarrow> Inl e
      | Inr v \<Rightarrow> Inr (if v \<noteq> JDict [] then v else dflt))"

text \<open>\<^verbatim>\<open>safe_get\<close>: \<^verbatim>\<open>except Exception: return default\<close> around the body.\<close>

definition safe_get :: "json \<Rightarrow> string \<Rightarrow> json \<Rightarrow> json" where
  "safe_get dct keys dflt =
     (case safe_get_try dct keys dflt of Inl e \<Rightarrow> dflt | Inr v \<Rightarrow> v)"

text \<open>
  The specification's reading of a path: every segment is a key of the dictionary reached
  so far. \<open>None\<close> when a segment is missing or the value reached before a segment is not a
  dictionary.
\<close>

fun resolve_path :: "json \<Rightarrow> string list \<Rightarrow> json option" where
  "resolve_path v [] = Some v"
| "resolve_path (JDict kvs) (k # ks) =
     (case map_of kvs k of None \<Rightarrow> None | Some v \<Rightarrow> resolve_path v ks)"
| "resolve_path v (k # ks) = None"

section \<open>Reference extractor (Contributors.py, github\_script.py)\<close>




























section \<open>Reconciliation store (Contributors.py)\<close>












section \<open>Identity resolver (Contributors.py)\<close>




















section \<open>Paginated fetcher (github\_script.py, commits.py)\<close>

text \<open>
  The network and the clock are explicit. A response is what the code reads of it: the
  status, the headers \<^verbatim>\<open>X-RateLimit-Remaining\<close> and \<^verbatim>\<open>X-RateLimit-Reset\<close> (\<open>None\<close> when
  the header is absent), whether the \<^verbatim>\<open>Link\<close> header names a next page, and the decoded
  body (\<open>None\<close> when decoding it raises). A request either raises or gets a response, and
  either takes some time. The network tells this for a request and the number of requests
  sent before it. A request is an endpoint and its \<^verbatim>\<open>page\<close> parameter.
\<close>

record 'a response =
  resp_status :: int
  resp_remaining :: "int option"
  resp_reset :: "int option"
  resp_has_next :: bool
  resp_json :: "'a option"

datatype 'a outcome = Raised | Responded "'a response"

type_synonym request = "string \<times> nat option"

type_synonym 'a network = "request \<Rightarrow> nat \<Rightarrow> rat \<times> 'a outcome"

text \<open>
  What a fetch leaves behind: the clock (\<^verbatim>\<open>time.time()\<close>, in seconds), the number of
  requests sent, and the requests and sleeps in order, a request with the time at which it
  was sent.
\<close>

datatype event = Request request rat | Sleep rat

record net_state =
  clock :: rat
  sent :: nat
  events :: "event list"

definition send :: "'a network \<Rightarrow> request \<Rightarrow> net_state \<Rightarrow> 'a outcome \<times> net_state" where
  "send net req s =
     (case net req (sent s) of
        (elapsed, out) \<Rightarrow>
          (out, s\<lparr>clock := clock s + elapsed, sent := sent s + 1,
                  events := events s @ [Request req (clock s)]\<rparr>))"

text \<open>\<^verbatim>\<open>time.sleep(d)\<close> and \<^verbatim>\<open>await asyncio.sleep(d)\<close>\<close>

definition sleep :: "rat \<Rightarrow> net_state \<Rightarrow> net_state" where
  "sleep d s = s\<lparr>clock := clock s + d, events := events s @ [Sleep d]\<rparr>"

text \<open>
  The body of the loop of \<^verbatim>\<open>get_github_data\<close>, for one response:
  \<^verbatim>\<open>
  remaining = int(response.headers.get('X-RateLimit-Remaining', 0))
  if remaining <= 1:
      reset_time = int(response.headers.get('X-RateLimit-Reset', time.time() + 3600))
      sleep_time = max(reset_time - time.time(), 0) + 10
      await asyncio.sleep(sleep_time)
      continue  # Retry after sleep
  \<close>
  \<^verbatim>\<open>int\<close> of the clock is its floor (the clock is not negative).
\<close>

definition rate_limit_sleep_time :: "'a response \<Rightarrow> rat \<Rightarrow> rat" where
  "rate_limit_sleep_time r now =
     (let reset_time = (case resp_reset r of None \<Rightarrow> \<lfloor>now + 3600\<rfloor> | Some t \<Rightarrow> t)
      in max (of_int reset_time - now) 0 + 10)"

text \<open>
  \<^verbatim>\<open>
  async def get_github_data(session, endpoint, params=None):
      max_retries = 3
      retry_delay = 5
      for attempt in range(max_retries):
          try:
              async with session.get(url, headers=HEADERS, params=params) as response:
                  ... rate limit, see above ...
                  if response.status == 200:
                      return await response.json()
                  elif response.status == 404:
                      return None
                  else:
                      await asyncio.sleep(retry_delay)
          except Exception as e:
              await asyncio.sleep(retry_delay)
      return None
  \<close>
  The first argument of the loop is the number of attempts left. A header that is not a
  number makes \<^verbatim>\<open>int\<close> raise and is a request that raised.
\<close>

fun get_github_data_loop ::
  "nat \<Rightarrow> 'a network \<Rightarrow> request \<Rightarrow> net_state \<Rightarrow> 'a option \<times> net_state" where
  "get_github_data_loop 0 net req s = (None, s)"
| "get_github_data_loop (Suc attempts) net req s =
     (case send net req s of
        (Raised, s1) \<Rightarrow> get_github_data_loop attempts net req (sleep 5 s1)
      | (Responded r, s1) \<Rightarrow>
          (let remaining = (case resp_remaining r of None \<Rightarrow> 0 | Some n \<Rightarrow> n)
           in if remaining \<le> 1
              then get_github_data_loop attempts net req
                     (sleep (rate_limit_sleep_time r (clock s1)) s1)
              else if resp_status r = 200
              then (case resp_json r of
                      Some body \<Rightarrow> (Some body, s1)
                    | None \<Rightarrow> get_github_data_loop attempts net req (sleep 5 s1))
              else if resp_status r = 404 then (None, s1)
              else get_github_data_loop attempts net req (sleep 5 s1)))"

definition get_github_data ::
  "'a network \<Rightarrow> request \<Rightarrow> net_state \<Rightarrow> 'a option \<times> net_state" where
  "get_github_data net req s = get_github_data_loop 3 net req s"

text \<open>
  The outcomes of one attempt, as claim C8 names them: a response that is not held back by
  the rate-limit check, and among the others the transient failures.
\<close>

definition not_rate_limited :: "'a response \<Rightarrow> bool" where
  "not_rate_limited r = (case resp_remaining r of None \<Rightarrow> False | Some n \<Rightarrow> 1 < n)"

definition transient_failure :: "'a outcome \<Rightarrow> bool" where
  "transient_failure out =
     (case out of
        Raised \<Rightarrow> True
      | Responded r \<Rightarrow>
          not_rate_limited r
          \<and> (if resp_status r = 200 then resp_json r = None else resp_status r \<noteq> 404))"

text \<open>An attempt after which \<^verbatim>\<open>get_github_data\<close> returns: a 200 with a body, or a 404.\<close>

definition returns_now :: "'a outcome \<Rightarrow> bool" where
  "returns_now out =
     (case out of
        Raised \<Rightarrow> False
      | Responded r \<Rightarrow>
          not_rate_limited r
          \<and> ((resp_status r = 200 \<and> resp_json r \<noteq> None) \<or> resp_status r = 404))"

text \<open>
  \<^verbatim>\<open>get_all_branches\<close> of github\_script.py. The body of a page is the list of the
  names of its branches. The loop has no bound of its own, so the first argument is fuel:
  \<open>None\<close> is a loop that has not ended when the fuel is used up.
  \<^verbatim>\<open>
  while True:
      try:
          response = requests.get(url, headers=headers)
          if response.status_code == 403 and 'X-RateLimit-Remaining' in response.headers:
              if int(response.headers['X-RateLimit-Remaining']) == 0:
                  reset_time = int(response.headers['X-RateLimit-Reset'])
                  sleep_time = max(reset_time - time.time(), 0) + 5
                  time.sleep(sleep_time)
                  continue
          response.raise_for_status()
          data = response.json()
          if not data:
              break
          branches.extend(branch['name'] for branch in data)
          if len(data) < 100:
              break
          page += 1
      except requests.exceptions.HTTPError as e:
          break
      except Exception as e:
          break
  return branches
  \<close>
  \<^verbatim>\<open>raise_for_status\<close> raises for a status from 400 to 599; a missing reset header is a
  \<^verbatim>\<open>KeyError\<close>; each exception ends the loop.
\<close>

fun get_all_branches_loop ::
  "nat \<Rightarrow> string list network \<Rightarrow> nat \<Rightarrow> string list \<Rightarrow> net_state
     \<Rightarrow> (string list \<times> net_state) option" where
  "get_all_branches_loop 0 net page branches s = None"
| "get_all_branches_loop (Suc fuel) net page branches s =
     (case send net (''/branches'', Some page) s of
        (Raised, s1) \<Rightarrow> Some (branches, s1)
      | (Responded r, s1) \<Rightarrow>
          if resp_status r = 403 \<and> resp_remaining r = Some 0
          then (case resp_reset r of
                  None \<Rightarrow> Some (branches, s1)
                | Some reset_time \<Rightarrow>
                    get_all_branches_loop fuel net page branches
                      (sleep (max (of_int reset_time - clock s1) 0 + 5) s1))
          else if 400 \<le> resp_status r \<and> resp_status r < 600 then Some (branches, s1)
          else (case resp_json r of
                  None \<Rightarrow> Some (branches, s1)
                | Some data \<Rightarrow>
                    if data = [] then Some (branches, s1)
                    else if length data < 100 then Some (branches @ data, s1)
                    else get_all_branches_loop fuel net (page + 1) (branches @ data) s1))"

definition get_all_branches ::
  "nat \<Rightarrow> string list network \<Rightarrow> net_state \<Rightarrow> (string list \<times> net_state) option" where
  "get_all_branches fuel net s = get_all_branches_loop fuel net 1 [] s"

text \<open>The requests among some events were all sent at or after an instant.\<close>

definition requests_from :: "rat \<Rightarrow> event list \<Rightarrow> bool" where
  "requests_from t0 evs = (\<forall>e\<in>set evs. case e of Request req t \<Rightarrow> t0 \<le> t | Sleep d \<Rightarrow> True)"

section \<open>Paginated fetcher: the commit fetches (github\_script.py, commits.py)\<close>













section \<open>Timeline mapper: proofs\<close>

lemma advance_stage_filter:
  "advance_stage cur d ts =
     (case filter (\<lambda>t. transition_date t \<le> d) ts of
        [] \<Rightarrow> cur
      | u # us \<Rightarrow> to_stage (last (u # us)))"
proof (induction ts arbitrary: cur)
  case Nil
  show ?case by simp
next
  case (Cons t ts)
  show ?case
  proof (cases "filter (\<lambda>t. transition_date t \<le> d) ts")
    case Nil
    then show ?thesis using Cons.IH by simp
  next
    case (Cons u us)
    then show ?thesis using Cons.IH by simp
  qed
qed

lemma filter_until_mono:
  assumes "d \<le> d'" and "filter (\<lambda>t. transition_date t \<le> d') ts = []"
  shows "filter (\<lambda>t. transition_date t \<le> (d::int)) ts = []"
  using assms by (auto simp: filter_empty_conv)

lemma stage_loop_map:
  assumes "sorted (map date cs)"
    and "\<forall>c\<in>set cs. filter (\<lambda>t. transition_date t \<le> date c) ts = [] \<longrightarrow> cur = ''TO DO''"
  shows "stage_loop key cur ts cs =
     map (\<lambda>c. \<lparr>jira_key = key, commit_sha = sha c, commit_date = date c,
               stage = (case filter (\<lambda>t. transition_date t \<le> date c) ts of
                          [] \<Rightarrow> ''TO DO''
                        | u # us \<Rightarrow> to_stage (last (u # us)))\<rparr>) cs"
  using assms
proof (induction cs arbitrary: cur)
  case Nil
  show ?case by simp
next
  case (Cons c cs)
  let ?cur' = "advance_stage cur (date c) ts"
  have head: "?cur' = (case filter (\<lambda>t. transition_date t \<le> date c) ts of
                          [] \<Rightarrow> ''TO DO''
                        | u # us \<Rightarrow> to_stage (last (u # us)))"
  proof (cases "filter (\<lambda>t. transition_date t \<le> date c) ts")
    case Nil
    moreover from Nil Cons.prems(2) have "cur = ''TO DO''" by simp
    ultimately show ?thesis by (simp add: advance_stage_filter)
  next
    case (Cons u us)
    then show ?thesis by (simp add: advance_stage_filter)
  qed
  have sorted_tl: "sorted (map date cs)"
    using Cons.prems(1) by simp
  have inv: "\<forall>c'\<in>set cs. filter (\<lambda>t. transition_date t \<le> date c') ts = [] \<longrightarrow> ?cur' = ''TO DO''"
  proof (intro ballI impI)
    fix c' assume c': "c' \<in> set cs"
      and empty: "filter (\<lambda>t. transition_date t \<le> date c') ts = []"
    from Cons.prems(1) c' have "date c \<le> date c'" by auto
    then have "filter (\<lambda>t. transition_date t \<le> date c) ts = []"
      using empty by (rule filter_until_mono)
    then show "?cur' = ''TO DO''" using head by simp
  qed
  have "stage_loop key ?cur' ts cs =
     map (\<lambda>c. \<lparr>jira_key = key, commit_sha = sha c, commit_date = date c,
               stage = (case filter (\<lambda>t. transition_date t \<le> date c) ts of
                          [] \<Rightarrow> ''TO DO''
                        | u # us \<Rightarrow> to_stage (last (u # us)))\<rparr>) cs"
    using Cons.IH [OF sorted_tl inv] .
  then show ?case using head by (simp add: Let_def)
qed

lemma map_commits_to_stages_map:
  "map_commits_to_stages key transitions commits =
     map (\<lambda>c. \<lparr>jira_key = key, commit_sha = sha c, commit_date = date c,
               stage = stage_at transitions (date c)\<rparr>) (sort_key date commits)"
proof (cases "commits = []")
  case True
  then show ?thesis by (simp add: map_commits_to_stages_def)
next
  case False
  have "stage_loop key ''TO DO'' (sort_key transition_date transitions) (sort_key date commits) =
     map (\<lambda>c. \<lparr>jira_key = key, commit_sha = sha c, commit_date = date c,
               stage = (case filter (\<lambda>t. transition_date t \<le> date c)
                               (sort_key transition_date transitions) of
                          [] \<Rightarrow> ''TO DO''
                        | u # us \<Rightarrow> to_stage (last (u # us)))\<rparr>) (sort_key date commits)"
    by (rule stage_loop_map) simp_all
  then show ?thesis using False
    by (simp add: map_commits_to_stages_def stage_at_def transitions_until_def)
qed

lemma transitions_until_latest:
  assumes "transitions_until transitions d = u # us"
  shows "last (u # us) \<in> set transitions
       \<and> transition_date (last (u # us)) \<le> d
       \<and> (\<forall>t\<in>set transitions. transition_date t \<le> d
            \<longrightarrow> transition_date t \<le> transition_date (last (u # us)))"
proof -
  define fs where "fs = filter (\<lambda>t. transition_date t \<le> d) (sort_key transition_date transitions)"
  have fs: "fs = u # us" using assms by (simp add: transitions_until_def fs_def)
  have sub: "set fs \<subseteq> {t \<in> set transitions. transition_date t \<le> d}"
    by (auto simp: fs_def)
  have sup: "{t \<in> set transitions. transition_date t \<le> d} \<subseteq> set fs"
    by (auto simp: fs_def)
  have ne: "fs \<noteq> []" using fs by simp
  have mem: "last fs \<in> set fs" using ne by (rule last_in_set)
  have srt: "sorted (map transition_date fs)"
    by (simp add: fs_def sorted_filter)
  have top: "transition_date t \<le> transition_date (last fs)" if "t \<in> set fs" for t
  proof -
    from that obtain i where i: "i < length fs" "fs ! i = t"
      unfolding in_set_conv_nth by blast
    have "map transition_date fs ! i \<le> map transition_date fs ! (length fs - 1)"
      using srt i(1) by (intro sorted_nth_mono) auto
    then show ?thesis
      using i ne by (simp add: last_conv_nth)
  qed
  show ?thesis using mem top sub sup fs by auto
qed

lemma stage_at_cases:
  "(\<exists>t\<in>set transitions. transition_date t \<le> d \<and> stage_at transitions d = to_stage t
       \<and> (\<forall>t'\<in>set transitions. transition_date t' \<le> d
             \<longrightarrow> transition_date t' \<le> transition_date t))
   \<or> ((\<forall>t\<in>set transitions. d < transition_date t) \<and> stage_at transitions d = ''TO DO'')"
proof (cases "transitions_until transitions d")
  case Nil
  then have "\<forall>t\<in>set transitions. d < transition_date t"
    by (auto simp: transitions_until_def filter_empty_conv)
  then show ?thesis using Nil by (simp add: stage_at_def)
next
  case (Cons u us)
  from transitions_until_latest [OF Cons] show ?thesis
    using Cons by (auto simp: stage_at_def)
qed

lemma stage_at_before_all:
  assumes "\<forall>t\<in>set transitions. d < transition_date t"
  shows "stage_at transitions d = ''TO DO''"
proof -
  have "transitions_until transitions d = []"
    using assms by (auto simp: transitions_until_def filter_empty_conv)
  then show ?thesis by (simp add: stage_at_def)
qed

lemma map_commits_to_stages_example:
  "map stage (map_commits_to_stages key
      [\<lparr>to_stage = ''In Progress'', transition_date = 2\<rparr>,
       \<lparr>to_stage = ''Done'', transition_date = 4\<rparr>]
      [\<lparr>sha = ''c1'', date = 1\<rparr>, \<lparr>sha = ''c3'', date = 3\<rparr>, \<lparr>sha = ''c5'', date = 5\<rparr>])
   = [''TO DO'', ''In Progress'', ''Done'']"
  by (simp add: map_commits_to_stages_def)

text \<open>
  Claim C1. For every list of commits and every list of transitions of one issue,
  \<^verbatim>\<open>map_commits_to_stages\<close> returns one entry per commit, in ascending (stable) order of
  the commits' timestamps, and the stage of each entry is the \<^verbatim>\<open>to_stage\<close> of the latest
  transition whose timestamp is at most the commit's (the last such transition of the
  transition list sorted ascending by timestamp); that transition is a transition of the
  issue, it is not after the commit, and no transition that is not after the commit is later
  than it. A commit that precedes every transition has the initial stage "TO DO"; with no
  transition at all every commit has it. Commits at 1, 3, 5 with the transitions
  (2, "In Progress") and (4, "Done") have the stages "TO DO", "In Progress", "Done".
\<close>

theorem map_commits_to_stages_timeline:
  "map_commits_to_stages key transitions commits =
     map (\<lambda>c. \<lparr>jira_key = key, commit_sha = sha c, commit_date = date c,
               stage = stage_at transitions (date c)\<rparr>) (sort_key date commits)
   \<and> sorted (map commit_date (map_commits_to_stages key transitions commits))
   \<and> (\<forall>e\<in>set (map_commits_to_stages key transitions commits).
        (\<exists>t\<in>set transitions. transition_date t \<le> commit_date e \<and> stage e = to_stage t
            \<and> (\<forall>t'\<in>set transitions. transition_date t' \<le> commit_date e
                  \<longrightarrow> transition_date t' \<le> transition_date t))
        \<or> ((\<forall>t\<in>set transitions. commit_date e < transition_date t) \<and> stage e = ''TO DO''))
   \<and> (\<forall>e\<in>set (map_commits_to_stages key [] commits). stage e = ''TO DO'')
   \<and> map stage (map_commits_to_stages key
        [\<lparr>to_stage = ''In Progress'', transition_date = 2\<rparr>,
         \<lparr>to_stage = ''Done'', transition_date = 4\<rparr>]
        [\<lparr>sha = ''c1'', date = 1\<rparr>, \<lparr>sha = ''c3'', date = 3\<rparr>, \<lparr>sha = ''c5'', date = 5\<rparr>])
      = [''TO DO'', ''In Progress'', ''Done'']"
proof (intro conjI)
  show "map_commits_to_stages key transitions commits =
     map (\<lambda>c. \<lparr>jira_key = key, commit_sha = sha c, commit_date = date c,
               stage = stage_at transitions (date c)\<rparr>) (sort_key date commits)"
    by (rule map_commits_to_stages_map)
  show "sorted (map commit_date (map_commits_to_stages key transitions commits))"
    by (simp add: map_commits_to_stages_map comp_def)
  show "\<forall>e\<in>set (map_commits_to_stages key transitions commits).
        (\<exists>t\<in>set transitions. transition_date t \<le> commit_date e \<and> stage e = to_stage t
            \<and> (\<forall>t'\<in>set transitions. transition_date t' \<le> commit_date e
                  \<longrightarrow> transition_date t' \<le> transition_date t))
        \<or> ((\<forall>t\<in>set transitions. commit_date e < transition_date t) \<and> stage e = ''TO DO'')"
  proof
    fix e assume "e \<in> set (map_commits_to_stages key transitions commits)"
    then obtain c :: commit where e: "e = \<lparr>jira_key = key, commit_sha = sha c, commit_date = date c,
               stage = stage_at transitions (date c)\<rparr>"
      by (auto simp: map_commits_to_stages_map)
    show "(\<exists>t\<in>set transitions. transition_date t \<le> commit_date e \<and> stage e = to_stage t
            \<and> (\<forall>t'\<in>set transitions. transition_date t' \<le> commit_date e
                  \<longrightarrow> transition_date t' \<le> transition_date t))
        \<or> ((\<forall>t\<in>set transitions. commit_date e < transition_date t) \<and> stage e = ''TO DO'')"
      using stage_at_cases [of transitions "date c"] by (simp add: e)
  qed
  show "\<forall>e\<in>set (map_commits_to_stages key [] commits). stage e = ''TO DO''"
    by (auto simp: map_commits_to_stages_map stage_at_before_all)
  show "map stage (map_commits_to_stages key
        [\<lparr>to_stage = ''In Progress'', transition_date = 2\<rparr>,
         \<lparr>to_stage = ''Done'', transition_date = 4\<rparr>]
        [\<lparr>sha = ''c1'', date = 1\<rparr>, \<lparr>sha = ''c3'', date = 3\<rparr>, \<lparr>sha = ''c5'', date = 5\<rparr>])
      = [''TO DO'', ''In Progress'', ''Done'']"
    by (rule map_commits_to_stages_example)
qed

theorem map_commits_to_stages_timeline_witness:
  "map_commits_to_stages ''GJA-1''
      [\<lparr>to_stage = ''Done'', transition_date = 4\<rparr>,
       \<lparr>to_stage = ''In Progress'', transition_date = 2\<rparr>]
      [\<lparr>sha = ''c5'', date = 5\<rparr>, \<lparr>sha = ''c1'', date = 1\<rparr>, \<lparr>sha = ''c3'', date = 3\<rparr>]
   = [\<lparr>jira_key = ''GJA-1'', commit_sha = ''c1'', commit_date = 1, stage = ''TO DO''\<rparr>,
      \<lparr>jira_key = ''GJA-1'', commit_sha = ''c3'', commit_date = 3, stage = ''In Progress''\<rparr>,
      \<lparr>jira_key = ''GJA-1'', commit_sha = ''c5'', commit_date = 5, stage = ''Done''\<rparr>]"
  using map_commits_to_stages_timeline [of "''GJA-1''"
      "[\<lparr>to_stage = ''Done'', transition_date = 4\<rparr>,
        \<lparr>to_stage = ''In Progress'', transition_date = 2\<rparr>]"
      "[\<lparr>sha = ''c5'', date = 5\<rparr>, \<lparr>sha = ''c1'', date = 1\<rparr>, \<lparr>sha = ''c3'', date = 3\<rparr>]"]
  by (simp add: stage_at_def transitions_until_def)

section \<open>Nested dictionary access: proofs\<close>

lemma safe_get_loop_empty: "safe_get_loop (JDict []) ks = Inr (JDict [])"
  by (induction ks) (simp_all add: is_dict_def dict_get_def)

lemma safe_get_loop_resolve:
  "safe_get_loop dct ks =
     Inr (case resolve_path dct ks of None \<Rightarrow> JDict [] | Some v \<Rightarrow> v)"
proof (induction ks arbitrary: dct)
  case Nil
  show ?case by simp
next
  case (Cons k ks)
  show ?case
  proof (cases dct)
    case (JDict kvs)
    show ?thesis
    proof (cases "map_of kvs k")
      case None
      then show ?thesis using JDict
        by (simp add: is_dict_def dict_get_def safe_get_loop_empty)
    next
      case (Some v)
      then show ?thesis using JDict Cons.IH [of v]
        by (simp add: is_dict_def dict_get_def)
    qed
  qed (simp_all add: is_dict_def safe_get_loop_empty)
qed

lemma safe_get_resolve:
  "safe_get dct keys dflt =
     (case resolve_path dct (split_on CHR ''.'' keys) of
        None \<Rightarrow> dflt
      | Some v \<Rightarrow> if v = JDict [] then dflt else v)"
  by (simp add: safe_get_def safe_get_try_def safe_get_loop_resolve split: option.splits)

text \<open>
  Claim C10. For every dictionary (every decoded value) and every dot-separated key path,
  the body of \<^verbatim>\<open>safe_get\<close> raises nothing, so the function returns a value; it returns
  the stored value when every segment of the path resolves through nested dictionaries and
  that value is not the empty dictionary; it returns the default when a segment is missing
  or a value that is not a dictionary is met before a segment; and it returns the default
  when the path resolves to the empty dictionary, as it does for an absent field.
\<close>

theorem safe_get_default_on_missing:
  "(\<exists>v. safe_get_try dct keys dflt = Inr v)
   \<and> (\<forall>v. resolve_path dct (split_on CHR ''.'' keys) = Some v \<and> v \<noteq> JDict []
          \<longrightarrow> safe_get dct keys dflt = v)
   \<and> (resolve_path dct (split_on CHR ''.'' keys) = None \<longrightarrow> safe_get dct keys dflt = dflt)
   \<and> (resolve_path dct (split_on CHR ''.'' keys) = Some (JDict [])
          \<longrightarrow> safe_get dct keys dflt = dflt)"
proof (intro conjI allI impI)
  show "\<exists>v. safe_get_try dct keys dflt = Inr v"
    by (simp add: safe_get_try_def safe_get_loop_resolve)
next
  fix v assume "resolve_path dct (split_on CHR ''.'' keys) = Some v \<and> v \<noteq> JDict []"
  then show "safe_get dct keys dflt = v" by (simp add: safe_get_resolve)
next
  assume "resolve_path dct (split_on CHR ''.'' keys) = None"
  then show "safe_get dct keys dflt = dflt" by (simp add: safe_get_resolve)
next
  assume "resolve_path dct (split_on CHR ''.'' keys) = Some (JDict [])"
  then show "safe_get dct keys dflt = dflt" by (simp add: safe_get_resolve)
qed

theorem safe_get_default_on_missing_witness:
  "safe_get (JDict [(''fields'', JDict [(''status'', JDict [(''name'', JStr ''Done'')]),
                                        (''labels'', JDict []),
                                        (''summary'', JStr ''s'')])])
      ''fields.status.name'' (JStr ''Unknown'') = JStr ''Done''
   \<and> safe_get (JDict [(''fields'', JDict [(''status'', JDict [(''name'', JStr ''Done'')]),
                                          (''labels'', JDict []),
                                          (''summary'', JStr ''s'')])])
      ''fields.priority.name'' (JStr ''Unknown'') = JStr ''Unknown''
   \<and> safe_get (JDict [(''fields'', JDict [(''status'', JDict [(''name'', JStr ''Done'')]),
                                          (''labels'', JDict []),
                                          (''summary'', JStr ''s'')])])
      ''fields.summary.name'' (JStr ''Unknown'') = JStr ''Unknown''
   \<and> safe_get (JDict [(''fields'', JDict [(''status'', JDict [(''name'', JStr ''Done'')]),
                                          (''labels'', JDict []),
                                          (''summary'', JStr ''s'')])])
      ''fields.labels'' (JStr ''Unknown'') = JStr ''Unknown''"
  using
    safe_get_default_on_missing [of
      "JDict [(''fields'', JDict [(''status'', JDict [(''name'', JStr ''Done'')]),
                                  (''labels'', JDict []),
                                  (''summary'', JStr ''s'')])]"
      "''fields.status.name''" "JStr ''Unknown''"]
    safe_get_default_on_missing [of
      "JDict [(''fields'', JDict [(''status'', JDict [(''name'', JStr ''Done'')]),
                                  (''labels'', JDict []),
                                  (''summary'', JStr ''s'')])]"
      "''fields.priority.name''" "JStr ''Unknown''"]
    safe_get_default_on_missing [of
      "JDict [(''fields'', JDict [(''status'', JDict [(''name'', JStr ''Done'')]),
                                  (''labels'', JDict []),
                                  (''summary'', JStr ''s'')])]"
      "''fields.summary.name''" "JStr ''Unknown''"]
    safe_get_default_on_missing [of
      "JDict [(''fields'', JDict [(''status'', JDict [(''name'', JStr ''Done'')]),
                                  (''labels'', JDict []),
                                  (''summary'', JStr ''s'')])]"
      "''fields.labels''" "JStr ''Unknown''"]
  by simp

section \<open>Reference extractor: proofs\<close>

























section \<open>Tag extraction: proofs\<close>






















section \<open>Reconciliation store: proofs\<close>












section \<open>Identity resolver: proofs\<close>























section \<open>Paginated fetcher: proofs about one request\<close>

lemma send_state:
  assumes "send net req s = (out, s1)"
  shows "sent s1 = sent s + 1 \<and> clock s1 = clock s + fst (net req (sent s))
       \<and> events s1 = events s @ [Request req (clock s)] \<and> out = snd (net req (sent s))"
  using assms by (auto simp: send_def split: prod.splits)

lemma sleep_state:
  "sent (sleep d s) = sent s \<and> clock (sleep d s) = clock s + d
     \<and> events (sleep d s) = events s @ [Sleep d]"
  by (simp add: sleep_def)

lemma get_github_data_loop_sent:
  "sent s \<le> sent (snd (get_github_data_loop n net req s))
     \<and> sent (snd (get_github_data_loop n net req s)) \<le> sent s + n"
proof (induction n arbitrary: s)
  case 0
  show ?case by simp
next
  case (Suc n)
  obtain out s1 where snd: "send net req s = (out, s1)" by (cases "send net req s")
  from send_state [OF snd] have s1: "sent s1 = sent s + 1" by simp
  have step: "sent s \<le> sent (snd (get_github_data_loop n net req (sleep d s1)))
     \<and> sent (snd (get_github_data_loop n net req (sleep d s1))) \<le> sent s + Suc n" for d
    using Suc [of "sleep d s1"] s1 by (simp add: sleep_state)
  show ?case
  proof (cases out)
    case Raised
    then show ?thesis using snd step by simp
  next
    case (Responded r)
    then show ?thesis using snd step s1 by (simp add: Let_def split: option.splits)
  qed
qed

lemma get_github_data_loop_transient:
  assumes "send net req s = (out, s1)" and "transient_failure out"
  shows "get_github_data_loop (Suc n) net req s = get_github_data_loop n net req (sleep 5 s1)"
proof (cases out)
  case Raised
  then show ?thesis using assms by simp
next
  case (Responded r)
  with assms(2) have "not_rate_limited r"
    and "if resp_status r = 200 then resp_json r = None else resp_status r \<noteq> 404"
    by (simp_all add: transient_failure_def)
  then show ?thesis using assms(1) Responded
    by (auto simp: not_rate_limited_def Let_def split: option.splits)
qed

lemma get_github_data_loop_404:
  assumes "send net req s = (Responded r, s1)" and "not_rate_limited r"
    and "resp_status r = 404"
  shows "get_github_data_loop (Suc n) net req s = (None, s1)"
  using assms by (auto simp: not_rate_limited_def Let_def split: option.splits)

lemma get_github_data_loop_200:
  assumes "send net req s = (Responded r, s1)" and "not_rate_limited r"
    and "resp_status r = 200" and "resp_json r = Some body"
  shows "get_github_data_loop (Suc n) net req s = (Some body, s1)"
  using assms by (auto simp: not_rate_limited_def Let_def split: option.splits)

lemma get_github_data_loop_rate_limited:
  assumes "send net req s = (Responded r, s1)" and "\<not> not_rate_limited r"
  shows "get_github_data_loop (Suc n) net req s
           = get_github_data_loop n net req (sleep (rate_limit_sleep_time r (clock s1)) s1)"
  using assms by (auto simp: not_rate_limited_def Let_def split: option.splits)

lemma get_github_data_loop_retry:
  assumes "send net req s = (out, s1)" and "\<not> returns_now out"
  shows "\<exists>d. get_github_data_loop (Suc n) net req s = get_github_data_loop n net req (sleep d s1)"
proof (cases out)
  case Raised
  then show ?thesis using assms(1) by auto
next
  case (Responded r)
  show ?thesis
  proof (cases "not_rate_limited r")
    case False
    from get_github_data_loop_rate_limited [OF assms(1) [unfolded Responded] False]
    show ?thesis by blast
  next
    case True
    with assms(2) Responded have "transient_failure out"
      by (auto simp: returns_now_def transient_failure_def)
    from get_github_data_loop_transient [OF assms(1) this] show ?thesis by blast
  qed
qed

lemma get_github_data_loop_exhausted:
  assumes "\<forall>i<n. \<not> returns_now (snd (net req (sent s + i)))"
  shows "fst (get_github_data_loop n net req s) = None
       \<and> sent (snd (get_github_data_loop n net req s)) = sent s + n"
  using assms
proof (induction n arbitrary: s)
  case 0
  show ?case by simp
next
  case (Suc n)
  obtain out s1 where snd: "send net req s = (out, s1)" by (cases "send net req s")
  from send_state [OF snd] have s1: "sent s1 = sent s + 1" and out: "out = snd (net req (sent s))"
    by simp_all
  from Suc.prems have "\<not> returns_now out" using out by auto
  from get_github_data_loop_retry [OF snd this]
  obtain d where step: "get_github_data_loop (Suc n) net req s
      = get_github_data_loop n net req (sleep d s1)" by blast
  have "\<forall>i<n. \<not> returns_now (snd (net req (sent (sleep d s1) + i)))"
    using Suc.prems s1 by (auto simp: sleep_state)
  from Suc.IH [OF this] show ?case
    unfolding step using s1 by (simp add: sleep_state)
qed

text \<open>
  Claim C8, as the code has it. \<^verbatim>\<open>get_github_data\<close> sends at most 3 requests. The
  rate-limit check comes first: a response whose remaining budget is at most 1, or that
  lacks the header, uses up the attempt whatever its status, with a sleep until the reset
  time plus 10 seconds. Of the other attempts, a 200 with a body returns the body at once, a
  404 returns \<open>None\<close> at once (no sleep, no further request), and a transient failure (a
  request that raises, another status, a body that does not decode) sleeps 5 seconds and
  goes on to the next attempt. When none of the three attempts returns, the function returns
  \<open>None\<close> after exactly 3 requests; it raises nothing.
\<close>

theorem get_github_data_bounded_retry:
  "sent (snd (get_github_data net req s)) \<le> sent s + 3
   \<and> (\<forall>out s1. send net req s = (out, s1) \<and> transient_failure out
        \<longrightarrow> get_github_data_loop (Suc n) net req s
              = get_github_data_loop n net req (sleep 5 s1))
   \<and> (\<forall>r s1. send net req s = (Responded r, s1) \<and> not_rate_limited r \<and> resp_status r = 404
        \<longrightarrow> get_github_data_loop (Suc n) net req s = (None, s1))
   \<and> (\<forall>r s1 body. send net req s = (Responded r, s1) \<and> not_rate_limited r
          \<and> resp_status r = 200 \<and> resp_json r = Some body
        \<longrightarrow> get_github_data_loop (Suc n) net req s = (Some body, s1))
   \<and> (\<forall>r s1. send net req s = (Responded r, s1) \<and> \<not> not_rate_limited r
        \<longrightarrow> get_github_data_loop (Suc n) net req s
              = get_github_data_loop n net req (sleep (rate_limit_sleep_time r (clock s1)) s1))
   \<and> ((\<forall>i<3. \<not> returns_now (snd (net req (sent s + i))))
        \<longrightarrow> fst (get_github_data net req s) = None
            \<and> sent (snd (get_github_data net req s)) = sent s + 3)"
proof (intro conjI allI impI)
  show "sent (snd (get_github_data net req s)) \<le> sent s + 3"
    using get_github_data_loop_sent [of s 3 net req] by (simp add: get_github_data_def)
next
  fix out s1 assume "send net req s = (out, s1) \<and> transient_failure out"
  then show "get_github_data_loop (Suc n) net req s
              = get_github_data_loop n net req (sleep 5 s1)"
    using get_github_data_loop_transient by blast
next
  fix r s1
  assume "send net req s = (Responded r, s1) \<and> not_rate_limited r \<and> resp_status r = 404"
  then show "get_github_data_loop (Suc n) net req s = (None, s1)"
    using get_github_data_loop_404 by blast
next
  fix r s1 body
  assume "send net req s = (Responded r, s1) \<and> not_rate_limited r
          \<and> resp_status r = 200 \<and> resp_json r = Some body"
  then show "get_github_data_loop (Suc n) net req s = (Some body, s1)"
    using get_github_data_loop_200 [of net req s r s1 body n] by simp
next
  fix r s1 assume "send net req s = (Responded r, s1) \<and> \<not> not_rate_limited r"
  then show "get_github_data_loop (Suc n) net req s
              = get_github_data_loop n net req (sleep (rate_limit_sleep_time r (clock s1)) s1)"
    using get_github_data_loop_rate_limited by blast
next
  assume "\<forall>i<3. \<not> returns_now (snd (net req (sent s + i)))"
  from get_github_data_loop_exhausted [of 3 net req s, OF this]
  show "fst (get_github_data net req s) = None"
    and "sent (snd (get_github_data net req s)) = sent s + 3"
    by (simp_all add: get_github_data_def)
qed

theorem get_github_data_bounded_retry_witness:
  "get_github_data
     (\<lambda>req n. (1 / 2, Responded \<lparr>resp_status = 500, resp_remaining = Some 4000,
                                  resp_reset = Some 1000, resp_has_next = False,
                                  resp_json = (None :: nat option)\<rparr>))
     (''/repos/o/r/commits'', Some 1) \<lparr>clock = 0, sent = 0, events = []\<rparr>
   = (None, \<lparr>clock = 33 / 2, sent = 3,
             events = [Request (''/repos/o/r/commits'', Some 1) 0, Sleep 5,
                       Request (''/repos/o/r/commits'', Some 1) (11 / 2), Sleep 5,
                       Request (''/repos/o/r/commits'', Some 1) 11, Sleep 5]\<rparr>)
   \<and> get_github_data
       (\<lambda>req n. (1 / 2, Responded \<lparr>resp_status = 404, resp_remaining = Some 4000,
                                    resp_reset = Some 1000, resp_has_next = False,
                                    resp_json = (None :: nat option)\<rparr>))
       (''/repos/o/r/commits'', Some 1) \<lparr>clock = 0, sent = 0, events = []\<rparr>
     = (None, \<lparr>clock = 1 / 2, sent = 1,
               events = [Request (''/repos/o/r/commits'', Some 1) 0]\<rparr>)"
proof -
  let ?net500 = "\<lambda>(req :: request) (n :: nat).
      (1 / 2 :: rat, Responded \<lparr>resp_status = 500, resp_remaining = Some 4000,
                                 resp_reset = Some 1000, resp_has_next = False,
                                 resp_json = (None :: nat option)\<rparr>)"
  let ?net404 = "\<lambda>(req :: request) (n :: nat).
      (1 / 2 :: rat, Responded \<lparr>resp_status = 404, resp_remaining = Some 4000,
                                 resp_reset = Some 1000, resp_has_next = False,
                                 resp_json = (None :: nat option)\<rparr>)"
  let ?req = "(''/repos/o/r/commits'', Some (1::nat))"
  let ?s = "\<lparr>clock = 0, sent = 0, events = []\<rparr>"
  have fail: "\<forall>i<3. \<not> returns_now (snd (?net500 ?req (sent ?s + i)))"
    by (simp add: returns_now_def not_rate_limited_def)
  from get_github_data_bounded_retry [of ?net500 ?req ?s 2] fail
  have a: "fst (get_github_data ?net500 ?req ?s) = None
      \<and> sent (snd (get_github_data ?net500 ?req ?s)) = sent ?s + 3"
    by blast
  have s404: "send ?net404 ?req ?s
      = (Responded \<lparr>resp_status = 404, resp_remaining = Some 4000,
                     resp_reset = Some 1000, resp_has_next = False,
                     resp_json = (None :: nat option)\<rparr>,
         \<lparr>clock = 1 / 2, sent = 1, events = [Request ?req 0]\<rparr>)"
    by (simp add: send_def)
  from get_github_data_bounded_retry [of ?net404 ?req ?s 2] s404
  have b: "get_github_data_loop 3 ?net404 ?req ?s
      = (None, \<lparr>clock = 1 / 2, sent = 1, events = [Request ?req 0]\<rparr>)"
    by (simp add: not_rate_limited_def numeral_3_eq_3)
  have c: "get_github_data ?net500 ?req ?s
   = (None, \<lparr>clock = 33 / 2, sent = 3,
             events = [Request ?req 0, Sleep 5, Request ?req (11 / 2), Sleep 5,
                       Request ?req 11, Sleep 5]\<rparr>)"
    by (simp add: get_github_data_def numeral_3_eq_3 send_def sleep_def)
  show ?thesis using a b c by (simp add: get_github_data_def)
qed

text \<open>
  The claim's "on an HTTP 404 response it returns None immediately with no further retry"
  fails for a 404 that reports a remaining budget of 1: the rate-limit check comes before
  the status check, so the function sleeps and sends the request again, three times in all.
\<close>

theorem get_github_data_404_rate_limited_retries:
  "get_github_data
     (\<lambda>req n. (0, Responded \<lparr>resp_status = 404, resp_remaining = Some 1,
                              resp_reset = Some 1000, resp_has_next = False,
                              resp_json = (None :: nat option)\<rparr>))
     (''/repos/o/r/commits/abc'', None) \<lparr>clock = 0, sent = 0, events = []\<rparr>
   = (None, \<lparr>clock = 1030, sent = 3,
             events = [Request (''/repos/o/r/commits/abc'', None) 0, Sleep 1010,
                       Request (''/repos/o/r/commits/abc'', None) 1010, Sleep 10,
                       Request (''/repos/o/r/commits/abc'', None) 1020, Sleep 10]\<rparr>)"
  by (simp add: get_github_data_def numeral_3_eq_3 send_def sleep_def rate_limit_sleep_time_def)

section \<open>Paginated fetcher: the rate limit\<close>

lemma requests_from_mono: "t0 \<le> t1 \<Longrightarrow> requests_from t1 evs \<Longrightarrow> requests_from t0 evs"
  by (auto simp: requests_from_def split: event.splits)

lemma requests_from_append:
  "requests_from t (xs @ ys) \<longleftrightarrow> requests_from t xs \<and> requests_from t ys"
  by (auto simp: requests_from_def)

lemma requests_from_single: "requests_from t [Request req t, Sleep d] \<and> requests_from t [Request req t]"
  by (simp add: requests_from_def)

lemma send_clock_mono:
  assumes "\<forall>q k. 0 \<le> fst (net q k)" and "send net req s = (out, s1)"
  shows "clock s \<le> clock s1"
proof -
  from assms(1) have "0 \<le> fst (net req (sent s))" by blast
  then show ?thesis using assms(2) by (auto simp: send_def split: prod.splits)
qed

lemma rate_limit_sleep_time_ge: "10 \<le> rate_limit_sleep_time r now"
  by (simp add: rate_limit_sleep_time_def Let_def)

lemma get_github_data_loop_later:
  assumes "\<forall>q k. 0 \<le> fst (net q k)"
  shows "\<exists>later. events (snd (get_github_data_loop n net req s)) = events s @ later
           \<and> requests_from (clock s) later"
proof (induction n arbitrary: s)
  case 0
  show ?case by (simp add: requests_from_def)
next
  case (Suc n)
  obtain out s1 where snd: "send net req s = (out, s1)" by (cases "send net req s")
  from send_state [OF snd]
  have s1: "events s1 = events s @ [Request req (clock s)]" by simp
  have c1: "clock s \<le> clock s1" using send_clock_mono [OF assms snd] .
  have here: "\<exists>later. events s1 = events s @ later \<and> requests_from (clock s) later"
    using s1 by (simp add: requests_from_def)
  have rec: "\<exists>later. events (snd (get_github_data_loop n net req (sleep d s1))) = events s @ later
           \<and> requests_from (clock s) later" if "0 \<le> d" for d
  proof -
    from Suc [of "sleep d s1"] obtain later where
      l: "events (snd (get_github_data_loop n net req (sleep d s1)))
            = events (sleep d s1) @ later"
      and r: "requests_from (clock (sleep d s1)) later" by blast
    have "clock s \<le> clock (sleep d s1)" using c1 that by (simp add: sleep_state)
    from requests_from_mono [OF this r] have "requests_from (clock s) later" .
    then have "requests_from (clock s) ([Request req (clock s), Sleep d] @ later)"
      using requests_from_single [of "clock s" req d] by (simp only: requests_from_append)
    moreover have "events (snd (get_github_data_loop n net req (sleep d s1)))
        = events s @ ([Request req (clock s), Sleep d] @ later)"
      using l s1 by (simp add: sleep_state)
    ultimately show ?thesis by blast
  qed
  show ?case
  proof (cases out)
    case Raised
    then show ?thesis using snd rec [of 5] by simp
  next
    case (Responded r)
    have "0 \<le> rate_limit_sleep_time r (clock s1)"
      using rate_limit_sleep_time_ge [of r "clock s1"] by simp
    from rec [OF this] rec [of 5] here show ?thesis
      using snd Responded by (simp add: Let_def split: option.splits)
  qed
qed

lemma get_github_data_rate_limit_wait:
  assumes lat: "\<forall>q k. 0 \<le> fst (net q k)"
    and snd: "send net req s = (Responded r, s1)"
    and lim: "\<not> not_rate_limited r"
    and reset: "resp_reset r = Some T"
  shows "\<exists>later. events (snd (get_github_data_loop (Suc n) net req s))
             = events s @ [Request req (clock s), Sleep (max (of_int T - clock s1) 0 + 10)] @ later
           \<and> requests_from (of_int T + 10) later"
proof -
  let ?d = "max (of_int T - clock s1) 0 + 10"
  have d: "rate_limit_sleep_time r (clock s1) = ?d"
    using reset by (simp add: rate_limit_sleep_time_def)
  have step: "get_github_data_loop (Suc n) net req s
           = get_github_data_loop n net req (sleep ?d s1)"
    using get_github_data_loop_rate_limited [OF snd lim] d by simp
  from get_github_data_loop_later [OF lat, of n req "sleep ?d s1"]
  obtain later where l: "events (snd (get_github_data_loop n net req (sleep ?d s1)))
        = events (sleep ?d s1) @ later"
    and r: "requests_from (clock (sleep ?d s1)) later" by blast
  have "of_int T + 10 \<le> clock (sleep ?d s1)" by (simp add: sleep_state)
  from requests_from_mono [OF this r] have "requests_from (of_int T + 10) later" .
  moreover have "events (snd (get_github_data_loop (Suc n) net req s))
             = events s @ [Request req (clock s), Sleep ?d] @ later"
    unfolding step l using send_state [OF snd] by (simp add: sleep_state)
  ultimately show ?thesis by blast
qed

lemma get_all_branches_loop_step:
  assumes "get_all_branches_loop (Suc n) net page branches s = Some (bs, s')"
    and "send net (''/branches'', Some page) s = (out, s1)"
  shows "s' = s1
    \<or> (\<exists>page' branches' d. 0 \<le> d
          \<and> get_all_branches_loop n net page' branches' (sleep d s1) = Some (bs, s'))
    \<or> (\<exists>page' branches'. get_all_branches_loop n net page' branches' s1 = Some (bs, s'))"
proof (cases out)
  case Raised
  then show ?thesis using assms by simp
next
  case (Responded r)
  show ?thesis
  proof (cases "resp_status r = 403 \<and> resp_remaining r = Some 0")
    case True
    show ?thesis
    proof (cases "resp_reset r")
      case None
      then show ?thesis using assms Responded True by simp
    next
      case (Some T)
      have "0 \<le> max (of_int T - clock s1) 0 + (5::rat)" by simp
      moreover have "get_all_branches_loop n net page branches
          (sleep (max (of_int T - clock s1) 0 + 5) s1) = Some (bs, s')"
        using assms Responded True Some by simp
      ultimately show ?thesis by blast
    qed
  next
    case False
    then have rest: "(if 400 \<le> resp_status r \<and> resp_status r < 600 then Some (branches, s1)
          else (case resp_json r of
                  None \<Rightarrow> Some (branches, s1)
                | Some data \<Rightarrow>
                    if data = [] then Some (branches, s1)
                    else if length data < 100 then Some (branches @ data, s1)
                    else get_all_branches_loop n net (page + 1) (branches @ data) s1))
        = Some (bs, s')"
      using assms Responded by (simp add: False)
    show ?thesis
    proof (cases "400 \<le> resp_status r \<and> resp_status r < 600")
      case True
      then show ?thesis using rest by simp
    next
      case ok: False
      show ?thesis
      proof (cases "resp_json r")
        case None
        then show ?thesis using rest ok by simp
      next
        case (Some data)
        show ?thesis
        proof (cases "data = []")
          case True
          then show ?thesis using rest ok Some by simp
        next
          case ne: False
          show ?thesis
          proof (cases "length data < 100")
            case True
            then show ?thesis using rest ok Some ne by simp
          next
            case False
            then have "get_all_branches_loop n net (page + 1) (branches @ data) s1 = Some (bs, s')"
              using rest ok Some ne by simp
            then show ?thesis by blast
          qed
        qed
      qed
    qed
  qed
qed

lemma get_all_branches_loop_later:
  assumes "\<forall>q k. 0 \<le> fst (net q k)"
  shows "get_all_branches_loop n net page branches s = Some (bs, s')
     \<Longrightarrow> \<exists>later. events s' = events s @ later \<and> requests_from (clock s) later"
proof (induction n arbitrary: s page branches)
  case 0
  then show ?case by simp
next
  case (Suc n)
  let ?req = "(''/branches'', Some page)"
  obtain out s1 where snd: "send net ?req s = (out, s1)" by (cases "send net ?req s")
  from send_state [OF snd]
  have s1: "events s1 = events s @ [Request ?req (clock s)]" by simp
  have c1: "clock s \<le> clock s1" using send_clock_mono [OF assms snd] .
  have first: "requests_from (clock s) [Request ?req (clock s)]"
    by (simp add: requests_from_def)
  from get_all_branches_loop_step [OF Suc.prems snd]
  consider "s' = s1"
    | page' branches' d where "0 \<le> d"
        "get_all_branches_loop n net page' branches' (sleep d s1) = Some (bs, s')"
    | page' branches' where "get_all_branches_loop n net page' branches' s1 = Some (bs, s')"
    by blast
  then show ?case
  proof cases
    case 1
    then show ?thesis using s1 first by blast
  next
    case 2
    from Suc.IH [OF 2(2)] obtain later where
      l: "events s' = events (sleep d s1) @ later"
      and r: "requests_from (clock (sleep d s1)) later" by blast
    have "clock s \<le> clock (sleep d s1)" using c1 2(1) by (simp add: sleep_state)
    from requests_from_mono [OF this r] have "requests_from (clock s) later" .
    then have "requests_from (clock s) ([Request ?req (clock s), Sleep d] @ later)"
      using requests_from_single [of "clock s" ?req d] by (simp only: requests_from_append)
    moreover have "events s' = events s @ ([Request ?req (clock s), Sleep d] @ later)"
      using l s1 by (simp add: sleep_state)
    ultimately show ?thesis by blast
  next
    case 3
    from Suc.IH [OF 3] obtain later where
      l: "events s' = events s1 @ later" and r: "requests_from (clock s1) later" by blast
    from requests_from_mono [OF c1 r] have "requests_from (clock s) later" .
    then have "requests_from (clock s) ([Request ?req (clock s)] @ later)"
      using first by (simp only: requests_from_append)
    moreover have "events s' = events s @ ([Request ?req (clock s)] @ later)"
      using l s1 by simp
    ultimately show ?thesis by blast
  qed
qed

lemma get_all_branches_rate_limit_wait:
  assumes lat: "\<forall>q k. 0 \<le> fst (net q k)"
    and snd: "send net (''/branches'', Some page) s = (Responded r, s1)"
    and lim: "resp_status r = 403" "resp_remaining r = Some 0"
    and reset: "resp_reset r = Some T"
  shows "get_all_branches_loop (Suc fuel) net page branches s
           = get_all_branches_loop fuel net page branches
               (sleep (max (of_int T - clock s1) 0 + 5) s1)
     \<and> (\<forall>bs s'. get_all_branches_loop (Suc fuel) net page branches s = Some (bs, s')
          \<longrightarrow> (\<exists>later. events s' = events s @ [Request (''/branches'', Some page) (clock s),
                                                Sleep (max (of_int T - clock s1) 0 + 5)] @ later
                  \<and> requests_from (of_int T + 5) later))"
proof (intro conjI allI impI)
  let ?d = "max (of_int T - clock s1) 0 + 5"
  show step: "get_all_branches_loop (Suc fuel) net page branches s
           = get_all_branches_loop fuel net page branches (sleep ?d s1)"
    using snd lim reset by simp
  fix bs s' assume "get_all_branches_loop (Suc fuel) net page branches s = Some (bs, s')"
  then have "get_all_branches_loop fuel net page branches (sleep ?d s1) = Some (bs, s')"
    using step by simp
  from get_all_branches_loop_later [OF lat this]
  obtain later where l: "events s' = events (sleep ?d s1) @ later"
    and r: "requests_from (clock (sleep ?d s1)) later" by blast
  have "of_int T + 5 \<le> clock (sleep ?d s1)" by (simp add: sleep_state)
  from requests_from_mono [OF this r] have "requests_from (of_int T + 5) later" .
  moreover have "events s' = events s @ [Request (''/branches'', Some page) (clock s), Sleep ?d] @ later"
    unfolding l using send_state [OF snd] by (simp add: sleep_state)
  ultimately show "\<exists>later. events s' = events s @ [Request (''/branches'', Some page) (clock s),
                                                Sleep ?d] @ later
                  \<and> requests_from (of_int T + 5) later" by blast
qed

text \<open>
  Claim C9, as the code has it; no request takes a negative time, and a sleep lasts as long
  as asked. In \<^verbatim>\<open>get_github_data\<close>, a response whose remaining budget is at most 1 (or that
  lacks the header) and whose reset time is \<open>T\<close> is followed by one sleep of
  \<open>max (T - now) 0 + 10\<close> seconds and by nothing else of that attempt: every request the call
  sends afterwards is sent at \<open>T + 10\<close> or later. The response uses up one of the three
  attempts, so after a third one the call returns \<open>None\<close>. In \<^verbatim>\<open>get_all_branches\<close>, a
  response with status 403 whose remaining budget is 0 and whose reset time is \<open>T\<close> is
  followed by one sleep of \<open>max (T - now) 0 + 5\<close> seconds; the loop then goes on with the same
  page and the branches it has, and every request it sends afterwards is sent at \<open>T + 5\<close> or
  later. A response with another status is not held back, whatever budget it reports.
\<close>

theorem rate_limit_suspension:
  assumes "\<forall>q k. 0 \<le> fst (net q k)" and "\<forall>q k. 0 \<le> fst (bnet q k)"
  shows
   "(\<forall>r s1 T. send net req s = (Responded r, s1) \<and> \<not> not_rate_limited r
         \<and> resp_reset r = Some T
       \<longrightarrow> get_github_data_loop (Suc n) net req s
             = get_github_data_loop n net req (sleep (max (of_int T - clock s1) 0 + 10) s1)
           \<and> get_github_data_loop (Suc 0) net req s
             = (None, sleep (max (of_int T - clock s1) 0 + 10) s1)
           \<and> (\<exists>later. events (snd (get_github_data_loop (Suc n) net req s))
                  = events s @ [Request req (clock s),
                                Sleep (max (of_int T - clock s1) 0 + 10)] @ later
                \<and> requests_from (of_int T + 10) later))
    \<and> (\<forall>r s1 T. send bnet (''/branches'', Some page) s = (Responded r, s1)
         \<and> resp_status r = 403 \<and> resp_remaining r = Some 0 \<and> resp_reset r = Some T
       \<longrightarrow> get_all_branches_loop (Suc fuel) bnet page branches s
             = get_all_branches_loop fuel bnet page branches
                 (sleep (max (of_int T - clock s1) 0 + 5) s1)
           \<and> (\<forall>bs s'. get_all_branches_loop (Suc fuel) bnet page branches s = Some (bs, s')
                \<longrightarrow> (\<exists>later. events s'
                          = events s @ [Request (''/branches'', Some page) (clock s),
                                        Sleep (max (of_int T - clock s1) 0 + 5)] @ later
                        \<and> requests_from (of_int T + 5) later)))"
proof (intro conjI allI impI)
  fix r s1 T
  assume h: "send net req s = (Responded r, s1) \<and> \<not> not_rate_limited r \<and> resp_reset r = Some T"
  then have d: "rate_limit_sleep_time r (clock s1) = max (of_int T - clock s1) 0 + 10"
    by (simp add: rate_limit_sleep_time_def)
  from h have snd: "send net req s = (Responded r, s1)" and lim: "\<not> not_rate_limited r"
    and reset: "resp_reset r = Some T" by simp_all
  show "get_github_data_loop (Suc n) net req s
          = get_github_data_loop n net req (sleep (max (of_int T - clock s1) 0 + 10) s1)"
    using get_github_data_loop_rate_limited [OF snd lim] d by simp
  show "get_github_data_loop (Suc 0) net req s
          = (None, sleep (max (of_int T - clock s1) 0 + 10) s1)"
    using get_github_data_loop_rate_limited [OF snd lim, of 0] d by simp
  show "\<exists>later. events (snd (get_github_data_loop (Suc n) net req s))
                  = events s @ [Request req (clock s),
                                Sleep (max (of_int T - clock s1) 0 + 10)] @ later
                \<and> requests_from (of_int T + 10) later"
    using get_github_data_rate_limit_wait [OF assms(1) snd lim reset] .
next
  fix r s1 T
  assume h: "send bnet (''/branches'', Some page) s = (Responded r, s1)
         \<and> resp_status r = 403 \<and> resp_remaining r = Some 0 \<and> resp_reset r = Some T"
  then have snd: "send bnet (''/branches'', Some page) s = (Responded r, s1)"
    and lim: "resp_status r = 403" "resp_remaining r = Some 0"
    and reset: "resp_reset r = Some T" by simp_all
  from get_all_branches_rate_limit_wait [OF assms(2) snd lim reset, of fuel branches]
  show "get_all_branches_loop (Suc fuel) bnet page branches s
             = get_all_branches_loop fuel bnet page branches
                 (sleep (max (of_int T - clock s1) 0 + 5) s1)"
    by blast
next
  fix r s1 T bs s'
  assume h: "send bnet (''/branches'', Some page) s = (Responded r, s1)
         \<and> resp_status r = 403 \<and> resp_remaining r = Some 0 \<and> resp_reset r = Some T"
    and run: "get_all_branches_loop (Suc fuel) bnet page branches s = Some (bs, s')"
  from h have snd: "send bnet (''/branches'', Some page) s = (Responded r, s1)"
    and lim: "resp_status r = 403" "resp_remaining r = Some 0"
    and reset: "resp_reset r = Some T" by simp_all
  from get_all_branches_rate_limit_wait [OF assms(2) snd lim reset, of fuel branches] run
  show "\<exists>later. events s'
            = events s @ [Request (''/branches'', Some page) (clock s),
                          Sleep (max (of_int T - clock s1) 0 + 5)] @ later
          \<and> requests_from (of_int T + 5) later"
    by blast
qed

theorem rate_limit_suspension_witness:
  "get_github_data
     (\<lambda>req n. (1 / 2,
        if n = 0
        then Responded \<lparr>resp_status = 403, resp_remaining = Some 0, resp_reset = Some 1000,
                        resp_has_next = False, resp_json = None\<rparr>
        else Responded \<lparr>resp_status = 200, resp_remaining = Some 4999, resp_reset = Some 4600,
                        resp_has_next = False, resp_json = Some (7 :: nat)\<rparr>))
     (''/repos/o/r'', None) \<lparr>clock = 0, sent = 0, events = []\<rparr>
   = (Some 7, \<lparr>clock = 2021 / 2, sent = 2,
               events = [Request (''/repos/o/r'', None) 0, Sleep (2019 / 2),
                         Request (''/repos/o/r'', None) 1010]\<rparr>)
   \<and> get_all_branches 5
       (\<lambda>req n. (1 / 2,
          if n = 0
          then Responded \<lparr>resp_status = 403, resp_remaining = Some 0, resp_reset = Some 1000,
                          resp_has_next = False, resp_json = None\<rparr>
          else Responded \<lparr>resp_status = 200, resp_remaining = Some 4999, resp_reset = Some 4600,
                          resp_has_next = False, resp_json = Some [''main'', ''dev'']\<rparr>))
       \<lparr>clock = 0, sent = 0, events = []\<rparr>
     = Some ([''main'', ''dev''],
             \<lparr>clock = 2011 / 2, sent = 2,
               events = [Request (''/branches'', Some 1) 0, Sleep (2009 / 2),
                         Request (''/branches'', Some 1) 1005]\<rparr>)"
proof -
  let ?r0 = "\<lambda>b. \<lparr>resp_status = 403, resp_remaining = Some 0, resp_reset = Some 1000,
                   resp_has_next = False, resp_json = b\<rparr>"
  let ?net = "\<lambda>(req :: request) (n :: nat). (1 / 2 :: rat,
        if n = 0 then Responded (?r0 None)
        else Responded \<lparr>resp_status = 200, resp_remaining = Some 4999, resp_reset = Some 4600,
                        resp_has_next = False, resp_json = Some (7 :: nat)\<rparr>)"
  let ?bnet = "\<lambda>(req :: request) (n :: nat). (1 / 2 :: rat,
          if n = 0 then Responded (?r0 None)
          else Responded \<lparr>resp_status = 200, resp_remaining = Some 4999, resp_reset = Some 4600,
                          resp_has_next = False, resp_json = Some [''main'', ''dev'']\<rparr>)"
  let ?s = "\<lparr>clock = 0, sent = 0, events = []\<rparr>"
  let ?s1 = "\<lambda>req. \<lparr>clock = 1 / 2, sent = 1, events = [Request req 0]\<rparr>"
  have lat: "\<forall>q k. 0 \<le> fst (?net q k)" and blat: "\<forall>q k. 0 \<le> fst (?bnet q k)"
    by simp_all
  have snd: "send ?net (''/repos/o/r'', None) ?s = (Responded (?r0 None), ?s1 (''/repos/o/r'', None))"
    by (simp add: send_def)
  have bsnd: "send ?bnet (''/branches'', Some 1) ?s
      = (Responded (?r0 None), ?s1 (''/branches'', Some 1))"
    by (simp add: send_def)
  have lim: "\<not> not_rate_limited (?r0 (None :: nat option))"
    by (simp add: not_rate_limited_def)
  note inst = rate_limit_suspension [OF lat blat, of "(''/repos/o/r'', None)" ?s 2 1 4 "[]"]
  from inst snd lim
  have a: "get_github_data_loop 3 ?net (''/repos/o/r'', None) ?s
      = get_github_data_loop 2 ?net (''/repos/o/r'', None)
          (sleep (max (of_int 1000 - clock (?s1 (''/repos/o/r'', None))) 0 + 10)
             (?s1 (''/repos/o/r'', None)))"
    by (simp add: numeral_3_eq_3 numeral_2_eq_2)
  from inst bsnd
  have b: "get_all_branches_loop 5 ?bnet 1 [] ?s
      = get_all_branches_loop 4 ?bnet 1 []
          (sleep (max (of_int 1000 - clock (?s1 (''/branches'', Some 1))) 0 + 5)
             (?s1 (''/branches'', Some 1)))"
    by (simp add: eval_nat_numeral)
  have a': "get_github_data_loop 2 ?net (''/repos/o/r'', None)
          (sleep (max (of_int 1000 - clock (?s1 (''/repos/o/r'', None))) 0 + 10)
             (?s1 (''/repos/o/r'', None)))
     = (Some 7, \<lparr>clock = 2021 / 2, sent = 2,
               events = [Request (''/repos/o/r'', None) 0, Sleep (2019 / 2),
                         Request (''/repos/o/r'', None) 1010]\<rparr>)"
    by (simp add: numeral_2_eq_2 send_def sleep_def)
  have b': "get_all_branches_loop 4 ?bnet 1 []
          (sleep (max (of_int 1000 - clock (?s1 (''/branches'', Some 1))) 0 + 5)
             (?s1 (''/branches'', Some 1)))
     = Some ([''main'', ''dev''],
             \<lparr>clock = 2011 / 2, sent = 2,
               events = [Request (''/branches'', Some 1) 0, Sleep (2009 / 2),
                         Request (''/branches'', Some 1) 1005]\<rparr>)"
    by (simp add: eval_nat_numeral send_def sleep_def)
  show ?thesis
    unfolding get_github_data_def get_all_branches_def a b a' b' by simp
qed

text \<open>
  The claim fails in \<^verbatim>\<open>get_all_branches\<close> for a response that reports a remaining budget
  of 0 with a status other than 403: a full page with status 200, remaining budget 0 and
  reset time 1000 is followed at once by the request for the next page, at time 1/2.
\<close>

theorem get_all_branches_no_wait_on_200:
  "map_option (\<lambda>(bs, s'). (length bs, events s'))
     (get_all_branches 3
        (\<lambda>req n. (1 / 2,
           if n = 0
           then Responded \<lparr>resp_status = 200, resp_remaining = Some 0, resp_reset = Some 1000,
                           resp_has_next = True,
                           resp_json = Some (map (\<lambda>i. ''b'' @ replicate i CHR ''x'') [0..<100])\<rparr>
           else if n = 1
           then Responded \<lparr>resp_status = 403, resp_remaining = Some 0, resp_reset = Some 1000,
                           resp_has_next = False, resp_json = None\<rparr>
           else Responded \<lparr>resp_status = 200, resp_remaining = Some 4999, resp_reset = Some 4600,
                           resp_has_next = False, resp_json = Some [''main'']\<rparr>))
        \<lparr>clock = 0, sent = 0, events = []\<rparr>)
   = Some (101, [Request (''/branches'', Some 1) 0,
                 Request (''/branches'', Some 2) (1 / 2), Sleep 1004,
                 Request (''/branches'', Some 2) 1005])"
  by code_simp

section \<open>Paginated fetcher: a page that fails\<close>
















end
